theory Spec2Isabelle
  imports Complex_Main "HOL-Library.AList" "HOL-Library.Multiset"
begin

section \<open>Data model\<close>

text \<open>
  The program (\<^verbatim>\<open>synonyms.py\<close>) works on Python dictionaries. A Python \<^verbatim>\<open>dict\<close> keeps its
  keys distinct and in insertion order; \<^verbatim>\<open>d[k] = v\<close> overwrites the value in place when
  \<open>k\<close> is present and appends the pair otherwise. That is \<^const>\<open>AList.update\<close> on an
  association list, and \<^verbatim>\<open>k in d\<close> / \<^verbatim>\<open>d[k]\<close> read it through \<^const>\<open>map_of\<close>.

  \<^item> A sparse vector (the semantic descriptor of one word) is a dictionary from words to
    Python integers (co-occurrence counts), unbounded, hence \<^typ>\<open>int\<close>.
  \<^item> The descriptor table is a dictionary from words to sparse vectors.
  \<^item> A sentence is a list of words.
\<close>

type_synonym vec = "(string \<times> int) list"

type_synonym table = "(string \<times> vec) list"

text \<open>The exceptions the modelled functions can end in.\<close>

datatype py_error = IndexError | ZeroDivisionError | OtherError

section \<open>Descriptor builder: \<^verbatim>\<open>build_semantic_descriptors\<close>\<close>

text \<open>\<^verbatim>\<open>d.get(key, default)\<close>.\<close>

definition dict_get :: "vec \<Rightarrow> string \<Rightarrow> int \<Rightarrow> int" where
  "dict_get d key dflt = (case map_of d key of None \<Rightarrow> dflt | Some v \<Rightarrow> v)"

text \<open>
  The body of the inner loop (source lines 83--84), acting on the dictionary
  \<^verbatim>\<open>descriptors[word]\<close>:
  \<^verbatim>\<open>
      if other_word != word:
          descriptors[word][other_word] = descriptors[word].get(other_word, 0) + 1
  \<close>
\<close>

definition count_pair :: "string \<Rightarrow> string \<Rightarrow> vec \<Rightarrow> vec" where
  "count_pair word other_word dw =
     (if other_word \<noteq> word
      then AList.update other_word (dict_get dw other_word 0 + 1) dw
      else dw)"

text \<open>
  The body of the loop over \<^verbatim>\<open>word\<close> (source lines 80--84). When \<^verbatim>\<open>word\<close> is not yet a
  key, line 81 stores an empty dictionary under it and the inner loop fills that one;
  otherwise the inner loop continues on the dictionary already stored. Either way the
  entry of \<^verbatim>\<open>word\<close> exists afterwards.
\<close>

definition add_word :: "string list \<Rightarrow> string \<Rightarrow> table \<Rightarrow> table" where
  "add_word unique_words word descriptors =
     (case map_of descriptors word of
        None \<Rightarrow> AList.update word (fold (count_pair word) unique_words []) descriptors
      | Some dw \<Rightarrow> AList.update word (fold (count_pair word) unique_words dw) descriptors)"

text \<open>
  One iteration of the loop over the sentences, for a given enumeration \<open>unique_words\<close>
  of \<^verbatim>\<open>set(sentence)\<close>: both loops run over the same enumeration.
\<close>

definition add_unique_words :: "string list \<Rightarrow> table \<Rightarrow> table" where
  "add_unique_words unique_words descriptors =
     fold (add_word unique_words) unique_words descriptors"

text \<open>
  \<^verbatim>\<open>unique_words = set(sentence)\<close>: Python iterates a set in an order of its own; the model
  enumerates the distinct words with \<^const>\<open>remdups\<close>. The contents of the table do not
  depend on that order (lemma \<open>lookup2_add_unique_words\<close> below holds for every distinct
  enumeration).
\<close>

definition add_sentence :: "string list \<Rightarrow> table \<Rightarrow> table" where
  "add_sentence sentence descriptors = add_unique_words (remdups sentence) descriptors"

definition build_semantic_descriptors :: "string list list \<Rightarrow> table" where
  "build_semantic_descriptors sentences = fold add_sentence sentences []"

text \<open>
  Reading the table: \<open>lookup2 d w v\<close> is \<^verbatim>\<open>d[w][v]\<close> when both keys are present, and
  \<open>cooc d w v\<close> reads an absent entry as the count 0.
\<close>

definition lookup2 :: "table \<Rightarrow> string \<Rightarrow> string \<Rightarrow> int option" where
  "lookup2 d w v = (case map_of d w of None \<Rightarrow> None | Some dw \<Rightarrow> map_of dw v)"

definition cooc :: "table \<Rightarrow> string \<Rightarrow> string \<Rightarrow> int" where
  "cooc d w v = (case lookup2 d w v of None \<Rightarrow> 0 | Some n \<Rightarrow> n)"

text \<open>
  The mapping a table denotes: Python compares dictionaries by their key sets and the
  values under each key, not by insertion order.
\<close>

definition table_view :: "table \<Rightarrow> string \<Rightarrow> (string \<Rightarrow> int option) option" where
  "table_view d w = map_option map_of (map_of d w)"

text \<open>The number of sentences in which two words occur together.\<close>

definition shared :: "string list list \<Rightarrow> string \<Rightarrow> string \<Rightarrow> nat" where
  "shared sentences w v = length (filter (\<lambda>s. w \<in> set s \<and> v \<in> set s) sentences)"

section \<open>Vector math: \<^verbatim>\<open>cosine_similarity\<close>\<close>

text \<open>
  The three loops of \<^verbatim>\<open>cosine_similarity\<close> (source lines 51--57) run over the items of a
  dictionary in its order and work on Python integers, which are exact:
  \<^verbatim>\<open>
      for key, value in vec1.items():
          base1 += value ** 2
      ...
      for key1, value1 in vec1.items():
          if key1 in vec2:
              top += value1 * vec2[key1]
  \<close>
\<close>

definition sum_squares :: "vec \<Rightarrow> int" where
  "sum_squares vec = fold (\<lambda>(key, value) base. base + value ^ 2) vec 0"

definition dot :: "vec \<Rightarrow> vec \<Rightarrow> int" where
  "dot vec1 vec2 =
     fold (\<lambda>(key1, value1) top.
             case map_of vec2 key1 of None \<Rightarrow> top | Some value2 \<Rightarrow> top + value1 * value2)
       vec1 0"

text \<open>Python's \<^verbatim>\<open>/\<close>: a zero divisor raises \<^verbatim>\<open>ZeroDivisionError\<close>.\<close>

definition py_truediv :: "real \<Rightarrow> real \<Rightarrow> py_error + real" where
  "py_truediv a b = (if b = 0 then Inl ZeroDivisionError else Inr (a / b))"

text \<open>
  Source lines 60--62. The last line leaves the integers: \<^verbatim>\<open>base1 ** 0.5\<close>, the product
  and the quotient are computed in binary floating point. The model computes them in
  \<^typ>\<open>real\<close>, that is without rounding and without overflow, so it decides which branch
  is taken and what the quotient is in exact arithmetic, and says nothing about the
  last bits of the float the program returns; \<open>cosine_similarity_binary64\<close> below
  rounds them. The sums of squares are not negative, so \<^verbatim>\<open>base ** 0.5\<close> is the square
  root.
\<close>

definition cosine_similarity :: "vec \<Rightarrow> vec \<Rightarrow> py_error + real" where
  "cosine_similarity vec1 vec2 =
     (let base1 = sum_squares vec1;
          base2 = sum_squares vec2;
          top = dot vec1 vec2
      in if base1 = 0 \<or> base2 = 0 then Inr (- 1)
         else py_truediv (real_of_int top) (sqrt (real_of_int base1) * sqrt (real_of_int base2)))"

subsection \<open>The last line in binary floating point\<close>

text \<open>
  A Python \<^verbatim>\<open>float\<close> is an IEEE 754 binary64 number, and every floating-point operation
  returns the representable number nearest to the exact result, ties going to the even
  significand. \<open>binary64 x\<close> is that number for a real \<open>x\<close>: a significand of 53 bits,
  so the spacing of the representable numbers around \<open>x\<close> is \<open>2\<close> to the power
  \<open>\<lfloor>log 2 \<bar>x\<bar>\<rfloor> - 52\<close>. The exponent is not bounded here: the model has neither overflow nor
  subnormal numbers, which sums of squares of word counts do not reach.
\<close>

definition round_half_even :: "real \<Rightarrow> int" where
  "round_half_even y =
     (let n = \<lfloor>y\<rfloor>; r = y - of_int n
      in if r < 1 / 2 then n else if 1 / 2 < r then n + 1 else if even n then n else n + 1)"

definition binary64 :: "real \<Rightarrow> real" where
  "binary64 x =
     (if x = 0 then 0
      else let e = \<lfloor>log 2 \<bar>x\<bar>\<rfloor>; ulp = 2 powr (of_int e - 52)
           in ulp * of_int (round_half_even (x / ulp)))"

text \<open>
  Source lines 46--62 with the arithmetic of the last line rounded as the interpreter
  does it: \<^verbatim>\<open>base ** 0.5\<close> converts the integer to a float and takes the root,
  \<^verbatim>\<open>top / ...\<close> converts \<^verbatim>\<open>top\<close> to a float and divides, and each conversion and operation
  rounds once. The power \<^verbatim>\<open>x ** 0.5\<close> is taken to be the correctly rounded square root.
\<close>

definition cosine_similarity_binary64 :: "vec \<Rightarrow> vec \<Rightarrow> py_error + real" where
  "cosine_similarity_binary64 vec1 vec2 =
     (let base1 = sum_squares vec1;
          base2 = sum_squares vec2;
          top = dot vec1 vec2
      in if base1 = 0 \<or> base2 = 0 then Inr (- 1)
         else let root1 = binary64 (sqrt (binary64 (of_int base1)));
                  root2 = binary64 (sqrt (binary64 (of_int base2)));
                  denominator = binary64 (root1 * root2)
              in if denominator = 0 then Inl ZeroDivisionError
                 else Inr (binary64 (binary64 (of_int top) / denominator)))"

section \<open>Synonym selector: \<^verbatim>\<open>most_similar_word\<close>\<close>

text \<open>
  The similarity function is a parameter; it is code the selector does not know, so in
  the model it may end in an exception, which the selector passes on.
\<close>

type_synonym similarity = "vec \<Rightarrow> vec \<Rightarrow> py_error + real"

text \<open>
  Source lines 129--132: the similarity of the word and one choice.
  \<^verbatim>\<open>
      if word not in semantic_descriptors or choice not in semantic_descriptors:
          similarity = -1
      else:
          similarity = similarity_fn(semantic_descriptors[word], semantic_descriptors[choice])
  \<close>
\<close>

definition pair_similarity :: "string \<Rightarrow> string \<Rightarrow> table \<Rightarrow> similarity \<Rightarrow> py_error + real" where
  "pair_similarity word choice semantic_descriptors similarity_fn =
     (case map_of semantic_descriptors word of
        None \<Rightarrow> Inr (- 1)
      | Some dw \<Rightarrow>
          (case map_of semantic_descriptors choice of
             None \<Rightarrow> Inr (- 1)
           | Some dc \<Rightarrow> similarity_fn dw dc))"

text \<open>
  The loop over the choices (source lines 128--136); its state is the pair
  \<^verbatim>\<open>(max_similarity, best_choice)\<close>.
\<close>

fun scan_choices :: "string \<Rightarrow> table \<Rightarrow> similarity \<Rightarrow> string list \<Rightarrow> real \<times> string \<Rightarrow> py_error + real \<times> string" where
  "scan_choices word semantic_descriptors similarity_fn [] st = Inr st"
| "scan_choices word semantic_descriptors similarity_fn (choice # rest) (max_similarity, best_choice) =
     (case pair_similarity word choice semantic_descriptors similarity_fn of
        Inl e \<Rightarrow> Inl e
      | Inr similarity \<Rightarrow>
          scan_choices word semantic_descriptors similarity_fn rest
            (if similarity > max_similarity then (similarity, choice)
             else (max_similarity, best_choice)))"

text \<open>
  Source lines 125--138. \<^verbatim>\<open>choices[0]\<close> raises \<^verbatim>\<open>IndexError\<close> on an empty list; the loop
  starts from \<^verbatim>\<open>max_similarity = -1\<close> and runs over all the choices, the first included.
\<close>

definition most_similar_word :: "string \<Rightarrow> string list \<Rightarrow> table \<Rightarrow> similarity \<Rightarrow> py_error + string" where
  "most_similar_word word choices semantic_descriptors similarity_fn =
     (case choices of
        [] \<Rightarrow> Inl IndexError
      | first # _ \<Rightarrow>
          (case scan_choices word semantic_descriptors similarity_fn choices (- 1, first) of
             Inl e \<Rightarrow> Inl e
           | Inr (max_similarity, best_choice) \<Rightarrow> Inr best_choice))"

section \<open>Evaluator: \<^verbatim>\<open>run_similarity_test\<close>\<close>

text \<open>
  The file is opened with the encoding \<^verbatim>\<open>latin1\<close>, so every byte is one character and a
  \<^typ>\<open>char\<close> of HOL is a character of the text. \<^verbatim>\<open>str.strip()\<close> and \<^verbatim>\<open>str.split()\<close> treat as
  white space the characters for which \<^verbatim>\<open>str.isspace()\<close> holds: in this range the codes
  9--13, 28--32, 133 and 160.
\<close>

definition is_space :: "char \<Rightarrow> bool" where
  "is_space c = (of_char c \<in> set [9, 10, 11, 12, 13, 28, 29, 30, 31, 32, 133, 160 :: nat])"

definition py_strip :: "string \<Rightarrow> string" where
  "py_strip s = rev (dropWhile is_space (rev (dropWhile is_space s)))"

text \<open>
  \<^verbatim>\<open>str.split()\<close> without a separator: the maximal runs of characters that are not white
  space. The first argument is the field being read.
\<close>

fun split_fields :: "string \<Rightarrow> string \<Rightarrow> string list" where
  "split_fields cur [] = (if cur = [] then [] else [cur])"
| "split_fields cur (c # cs) =
     (if is_space c
      then (if cur = [] then split_fields [] cs else cur # split_fields [] cs)
      else split_fields (cur @ [c]) cs)"

definition py_split :: "string \<Rightarrow> string list" where
  "py_split s = split_fields [] s"

text \<open>
  The body of the loop over the lines of the file (source lines 157--164); the state is
  \<^verbatim>\<open>(total_count, correct_count)\<close>. An exception of the similarity function ends the
  run.
\<close>

fun count_lines :: "string list \<Rightarrow> table \<Rightarrow> similarity \<Rightarrow> nat \<times> nat \<Rightarrow> py_error + nat \<times> nat" where
  "count_lines [] semantic_descriptors similarity_fn st = Inr st"
| "count_lines (line # rest) semantic_descriptors similarity_fn (total_count, correct_count) =
     (let words = py_split (py_strip line) in
      if length words \<ge> 3 then
        (case most_similar_word (words ! 0) (drop 2 words) semantic_descriptors similarity_fn of
           Inl e \<Rightarrow> Inl e
         | Inr guess \<Rightarrow>
             count_lines rest semantic_descriptors similarity_fn
               (total_count + 1,
                if guess = words ! 1 then correct_count + 1 else correct_count))
      else count_lines rest semantic_descriptors similarity_fn (total_count, correct_count))"

text \<open>
  Source lines 152--168, on the lines the file yields. The quotient and the product of
  the last line are floating point in the program and \<^typ>\<open>real\<close> here.
\<close>

definition run_similarity_test :: "string list \<Rightarrow> table \<Rightarrow> similarity \<Rightarrow> py_error + real" where
  "run_similarity_test file_lines semantic_descriptors similarity_fn =
     (case count_lines file_lines semantic_descriptors similarity_fn (0, 0) of
        Inl e \<Rightarrow> Inl e
      | Inr (total_count, correct_count) \<Rightarrow>
          if total_count = 0 then Inr 0
          else Inr (real correct_count / real total_count * 100))"

text \<open>
  What the evaluator is meant to compute, stated on the lines directly: the fields of a
  line, the lines that are questions, and the questions answered correctly.
\<close>

definition fields :: "string \<Rightarrow> string list" where
  "fields line = py_split (py_strip line)"



text \<open>What one item of \<^verbatim>\<open>vec1\<close> adds to the dot product.\<close>

definition dot_term :: "vec \<Rightarrow> string \<Rightarrow> int \<Rightarrow> int" where
  "dot_term vec2 key1 value1 = (case map_of vec2 key1 of None \<Rightarrow> 0 | Some value2 \<Rightarrow> value1 * value2)"


text \<open>
  For a similarity function that returns normally (\<open>f\<close> gives its value), the number
  that lines 129--132 assign to \<^verbatim>\<open>similarity\<close> for one choice.
\<close>

definition similarity_value :: "string \<Rightarrow> table \<Rightarrow> (vec \<Rightarrow> vec \<Rightarrow> real) \<Rightarrow> string \<Rightarrow> real" where
  "similarity_value word semantic_descriptors f choice =
     (case map_of semantic_descriptors word of
        None \<Rightarrow> - 1
      | Some dw \<Rightarrow> (case map_of semantic_descriptors choice of None \<Rightarrow> - 1 | Some dc \<Rightarrow> f dw dc))"

text \<open>
  Lines 134--136 as a step on the loop state, and the invariant of the loop over the
  choices seen so far: no choice seen is more similar than \<^verbatim>\<open>max_similarity\<close>, and
  \<^verbatim>\<open>best_choice\<close> is either still the initial default, with \<^verbatim>\<open>max_similarity\<close> still \<open>-1\<close>, or
  the first choice seen that reaches \<^verbatim>\<open>max_similarity\<close>.
\<close>

definition keep_best :: "(string \<Rightarrow> real) \<Rightarrow> real \<times> string \<Rightarrow> string \<Rightarrow> real \<times> string" where
  "keep_best s st choice = (if s choice > fst st then (s choice, choice) else st)"

definition best_so_far :: "(string \<Rightarrow> real) \<Rightarrow> string \<Rightarrow> string list \<Rightarrow> real \<times> string \<Rightarrow> bool" where
  "best_so_far s first seen st =
     ((\<forall>c\<in>set seen. s c \<le> fst st) \<and>
      (fst st = - 1 \<and> snd st = first \<or>
       (\<exists>i<length seen. seen ! i = snd st \<and> s (snd st) = fst st \<and> (\<forall>j<i. s (seen ! j) < fst st))))"

section \<open>What the builder stores\<close>

lemma dict_get_update:
  "dict_get (AList.update k x d) k' dflt = (if k' = k then x else dict_get d k' dflt)"
  by (simp add: dict_get_def update_conv')

lemma map_of_count_pair:
  "map_of (count_pair w u dw) v =
     (if v = u \<and> u \<noteq> w then Some (dict_get dw u 0 + 1) else map_of dw v)"
  by (simp add: count_pair_def update_conv')

lemma dict_get_count_pair:
  "dict_get (count_pair w u dw) v 0 =
     (if v = u \<and> u \<noteq> w then dict_get dw u 0 + 1 else dict_get dw v 0)"
  by (simp add: dict_get_def map_of_count_pair)

lemma map_of_fold_count_pair:
  "distinct us \<Longrightarrow>
   map_of (fold (count_pair w) us dw) v =
     (if v \<in> set us \<and> v \<noteq> w then Some (dict_get dw v 0 + 1) else map_of dw v)"
proof (induction us arbitrary: dw)
  case Nil
  then show ?case by simp
next
  case (Cons u us)
  then have "u \<notin> set us" and "distinct us" by simp_all
  then show ?case
    using Cons.IH [of "count_pair w u dw"]
    by (auto simp: map_of_count_pair dict_get_count_pair)
qed

lemma map_of_add_word:
  "map_of (add_word us w d) w' =
     (if w' = w
      then Some (fold (count_pair w) us (case map_of d w of None \<Rightarrow> [] | Some dw \<Rightarrow> dw))
      else map_of d w')"
  by (simp add: add_word_def update_conv' split: option.splits)

lemma dom_add_word: "dom (map_of (add_word us w d)) = insert w (dom (map_of d))"
  by (auto simp: map_of_add_word dom_def)

lemma lookup2_add_word:
  "distinct us \<Longrightarrow>
   lookup2 (add_word us w d) w' v =
     (if w' = w \<and> v \<in> set us \<and> v \<noteq> w then Some (cooc d w v + 1) else lookup2 d w' v)"
  by (auto simp: lookup2_def cooc_def map_of_add_word map_of_fold_count_pair dict_get_def
           split: option.splits)

lemma cooc_add_word:
  "distinct us \<Longrightarrow>
   cooc (add_word us w d) w' v =
     (if w' = w \<and> v \<in> set us \<and> v \<noteq> w then cooc d w v + 1 else cooc d w' v)"
  by (simp add: cooc_def [of "add_word us w d"] lookup2_add_word) (simp add: cooc_def)

lemma lookup2_fold_add_word:
  "distinct us \<Longrightarrow> distinct ws \<Longrightarrow>
   lookup2 (fold (add_word us) ws d) w v =
     (if w \<in> set ws \<and> v \<in> set us \<and> v \<noteq> w then Some (cooc d w v + 1) else lookup2 d w v)"
proof (induction ws arbitrary: d)
  case Nil
  then show ?case by simp
next
  case (Cons u ws)
  then have u: "u \<notin> set ws" and ws: "distinct ws" and us: "distinct us" by simp_all
  have step: "lookup2 (fold (add_word us) (u # ws) d) w v =
     (if w \<in> set ws \<and> v \<in> set us \<and> v \<noteq> w then Some (cooc (add_word us u d) w v + 1)
      else lookup2 (add_word us u d) w v)"
    using Cons.IH [OF us ws, of "add_word us u d"] by simp
  show ?case
  proof (cases "w = u")
    case True
    with u show ?thesis unfolding step by (simp add: lookup2_add_word [OF us])
  next
    case False
    then show ?thesis unfolding step
      by (simp add: lookup2_add_word [OF us] cooc_add_word [OF us])
  qed
qed

lemma dom_fold_add_word:
  "dom (map_of (fold (add_word us) ws d)) = dom (map_of d) \<union> set ws"
  by (induction ws arbitrary: d) (auto simp: dom_add_word)

lemma lookup2_add_unique_words:
  "distinct us \<Longrightarrow>
   lookup2 (add_unique_words us d) w v =
     (if w \<in> set us \<and> v \<in> set us \<and> v \<noteq> w then Some (cooc d w v + 1) else lookup2 d w v)"
  by (simp add: add_unique_words_def lookup2_fold_add_word)

lemma lookup2_add_sentence:
  "lookup2 (add_sentence s d) w v =
     (if w \<in> set s \<and> v \<in> set s \<and> v \<noteq> w then Some (cooc d w v + 1) else lookup2 d w v)"
  by (simp add: add_sentence_def lookup2_add_unique_words)

lemma cooc_add_sentence:
  "cooc (add_sentence s d) w v =
     (if w \<in> set s \<and> v \<in> set s \<and> v \<noteq> w then cooc d w v + 1 else cooc d w v)"
  by (simp add: cooc_def [of "add_sentence s d"] lookup2_add_sentence) (simp add: cooc_def)

lemma dom_add_sentence: "dom (map_of (add_sentence s d)) = dom (map_of d) \<union> set s"
  by (simp add: add_sentence_def add_unique_words_def dom_fold_add_word)

lemma lookup2_fold_add_sentence:
  "lookup2 (fold add_sentence ss d) w v =
     (if w \<noteq> v \<and> 0 < shared ss w v then Some (cooc d w v + int (shared ss w v))
      else lookup2 d w v)"
proof (induction ss arbitrary: d)
  case Nil
  then show ?case by (simp add: shared_def)
next
  case (Cons s ss)
  show ?case
    using Cons.IH [of "add_sentence s d"]
    by (auto simp: shared_def lookup2_add_sentence cooc_add_sentence)
qed

lemma dom_fold_add_sentence:
  "dom (map_of (fold add_sentence ss d)) = dom (map_of d) \<union> \<Union> (set ` set ss)"
  by (induction ss arbitrary: d) (auto simp: dom_add_sentence)

lemma lookup2_build:
  "lookup2 (build_semantic_descriptors ss) w v =
     (if w \<noteq> v \<and> 0 < shared ss w v then Some (int (shared ss w v)) else None)"
  by (simp add: build_semantic_descriptors_def lookup2_fold_add_sentence)
     (simp add: lookup2_def cooc_def)

lemma dom_build: "dom (map_of (build_semantic_descriptors ss)) = \<Union> (set ` set ss)"
  by (simp add: build_semantic_descriptors_def dom_fold_add_sentence)

subsection \<open>Counting shared sentences\<close>

lemma shared_commute: "shared ss w v = shared ss v w"
  by (simp add: shared_def conj_commute)

lemma shared_mset: "shared ss w v = size (filter_mset (\<lambda>s. w \<in> set s \<and> v \<in> set s) (mset ss))"
  by (simp add: shared_def flip: mset_filter)

lemma shared_pos_iff: "0 < shared ss w v \<longleftrightarrow> (\<exists>s\<in>set ss. w \<in> set s \<and> v \<in> set s)"
  by (auto simp: shared_def filter_empty_conv)

lemma lookup2_Some_iff:
  "lookup2 d w v = Some n \<longleftrightarrow> (\<exists>dw. map_of d w = Some dw \<and> map_of dw v = Some n)"
  by (simp add: lookup2_def split: option.splits)

lemma map_of_build_solo:
  assumes occ: "\<exists>s\<in>set ss. w \<in> set s"
    and solo: "\<forall>s\<in>set ss. w \<in> set s \<longrightarrow> set s = {w}"
  shows "map_of (build_semantic_descriptors ss) w = Some []"
proof -
  from occ have "w \<in> dom (map_of (build_semantic_descriptors ss))"
    by (simp add: dom_build)
  then obtain dw where dw: "map_of (build_semantic_descriptors ss) w = Some dw"
    by blast
  have "map_of dw v = None" for v
  proof -
    have "\<not> (w \<noteq> v \<and> 0 < shared ss w v)"
      using solo by (auto simp: shared_pos_iff)
    then have "lookup2 (build_semantic_descriptors ss) w v = None"
      by (simp only: lookup2_build if_False)
    then show ?thesis by (simp add: lookup2_def dw)
  qed
  then have "map_of dw = Map.empty" by (rule ext)
  then have "dw = []" by (simp only: map_of_eq_empty_iff)
  with dw show ?thesis by simp
qed



section \<open>Properties of the descriptor table\<close>

text \<open>
  Claim C1, as the code has it. Line 80--81 of the source give every word of every
  sentence an entry before any pair is counted, so the keys of the table are exactly
  the words that occur in some sentence; a word that never shares a sentence with a
  different word is a key too, and its descriptor is the empty dictionary.
\<close>

theorem C1_every_word_is_a_key:
  "(w \<in> dom (map_of (build_semantic_descriptors ss))) = (\<exists>s\<in>set ss. w \<in> set s) \<and>
   ((\<exists>s\<in>set ss. w \<in> set s) \<and> (\<forall>s\<in>set ss. w \<in> set s \<longrightarrow> set s = {w})
      \<longrightarrow> map_of (build_semantic_descriptors ss) w = Some [])"
  by (simp add: dom_build map_of_build_solo)

theorem C1_every_word_is_a_key_witness:
  "''solo'' \<in> dom (map_of (build_semantic_descriptors [[''solo''], [''a'', ''b'']])) \<and>
   map_of (build_semantic_descriptors [[''solo''], [''a'', ''b'']]) ''solo'' = Some []"
  using C1_every_word_is_a_key [of "''solo''" "[[''solo''], [''a'', ''b'']]"]
  by simp

text \<open>
  Claim C1 as stated (a word that co-occurs with nothing is absent from the table) fails:
  for the single sentence \<^verbatim>\<open>["solo"]\<close> the table is \<^verbatim>\<open>{"solo": {}}\<close>.
\<close>

theorem C1_solo_word_counterexample:
  "''solo'' \<in> dom (map_of (build_semantic_descriptors [[''solo'']])) \<and>
   map_of (build_semantic_descriptors [[''solo'']]) ''solo'' = Some []"
  by (simp add: build_semantic_descriptors_def add_sentence_def add_unique_words_def
      add_word_def count_pair_def)

text \<open>
  Claim C2: the table is symmetric. Whenever \<^verbatim>\<open>descriptor[w]\<close> has a key \<open>v\<close> with count
  \<open>n\<close>, the word \<open>v\<close> is a key of the table and \<^verbatim>\<open>descriptor[v][w]\<close> is \<open>n\<close> as well.
\<close>

theorem C2_symmetric:
  "map_of (build_semantic_descriptors ss) w = Some dw \<Longrightarrow> map_of dw v = Some n \<Longrightarrow>
   \<exists>dv. map_of (build_semantic_descriptors ss) v = Some dv \<and> map_of dv w = Some n"
proof -
  assume "map_of (build_semantic_descriptors ss) w = Some dw" and "map_of dw v = Some n"
  then have "lookup2 (build_semantic_descriptors ss) w v = Some n"
    by (simp add: lookup2_def)
  then have "lookup2 (build_semantic_descriptors ss) v w = Some n"
    by (simp add: lookup2_build shared_commute [of ss v w] split: if_splits)
  then show ?thesis by (simp only: lookup2_Some_iff)
qed

theorem C2_symmetric_witness:
  "map_of (build_semantic_descriptors [[''i'', ''am'']]) ''i'' = Some [(''am'', 1)] \<and>
   map_of [(''am'', 1::int)] ''am'' = Some 1 \<and>
   (\<exists>dv. map_of (build_semantic_descriptors [[''i'', ''am'']]) ''am'' = Some dv \<and>
         map_of dv ''i'' = Some 1)"
proof -
  have a: "map_of (build_semantic_descriptors [[''i'', ''am'']]) ''i'' = Some [(''am'', 1)]"
    by (simp add: build_semantic_descriptors_def add_sentence_def add_unique_words_def
        add_word_def count_pair_def dict_get_def)
  have b: "map_of [(''am'', 1::int)] ''am'' = Some 1" by simp
  from a b C2_symmetric [OF a b] show ?thesis by blast
qed


text \<open>
  Claim C8: the order in which the sentences are processed does not matter. Two
  sequences with the same sentences, each as often as in the other, give tables that
  denote the same mapping from words to co-occurrence counts.
\<close>

theorem C8_order_of_sentences:
  "mset ss' = mset ss \<Longrightarrow>
   table_view (build_semantic_descriptors ss') = table_view (build_semantic_descriptors ss)"
proof (rule ext)
  fix w
  assume perm: "mset ss' = mset ss"
  then have sets: "set ss' = set ss" by (rule mset_eq_setD)
  have sh: "shared ss' w v = shared ss w v" for v
    by (simp add: shared_mset perm)
  have l2: "lookup2 (build_semantic_descriptors ss') w v = lookup2 (build_semantic_descriptors ss) w v" for v
    by (simp add: lookup2_build sh)
  have "dom (map_of (build_semantic_descriptors ss')) = dom (map_of (build_semantic_descriptors ss))"
    by (simp add: dom_build sets)
  then have keys: "map_of (build_semantic_descriptors ss') w = None \<longleftrightarrow>
      map_of (build_semantic_descriptors ss) w = None"
    by (metis domIff)
  show "table_view (build_semantic_descriptors ss') w = table_view (build_semantic_descriptors ss) w"
  proof (cases "map_of (build_semantic_descriptors ss) w")
    case None
    with keys show ?thesis by (simp add: table_view_def)
  next
    case (Some dw)
    with keys obtain dw' where dw': "map_of (build_semantic_descriptors ss') w = Some dw'"
      by auto
    have "map_of dw' v = map_of dw v" for v
      using l2 [of v] by (simp add: lookup2_def Some dw')
    then have "map_of dw' = map_of dw" by (rule ext)
    then show ?thesis by (simp add: table_view_def Some dw')
  qed
qed

theorem C8_order_of_sentences_witness:
  "mset [[''b'', ''c''], [''a'', ''b'']] = mset [[''a'', ''b''], [''b'', ''c'']] \<and>
   table_view (build_semantic_descriptors [[''b'', ''c''], [''a'', ''b'']]) =
   table_view (build_semantic_descriptors [[''a'', ''b''], [''b'', ''c'']])"
proof -
  have h: "mset [[''b'', ''c''], [''a'', ''b'']] = mset [[''a'', ''b''], [''b'', ''c'']]"
    by simp
  from h C8_order_of_sentences [OF h] show ?thesis by (rule conjI)
qed

section \<open>Properties of the cosine similarity\<close>

lemma fold_sum_squares:
  "fold (\<lambda>(key, value) base. base + value ^ 2) vec b = b + (\<Sum>(key, value)\<leftarrow>vec. value ^ 2)"
  by (induction vec arbitrary: b) (auto simp: algebra_simps)

lemma sum_squares_sum_list: "sum_squares vec = (\<Sum>(key, value)\<leftarrow>vec. value ^ 2)"
  by (simp add: sum_squares_def fold_sum_squares)

lemma sum_squares_nonneg: "0 \<le> sum_squares vec"
  unfolding sum_squares_sum_list by (rule sum_list_nonneg) auto

lemma sum_squares_Nil: "sum_squares [] = 0"
  by (simp add: sum_squares_def)

lemma sum_squares_zero_iff: "sum_squares vec = 0 \<longleftrightarrow> (\<forall>(key, value)\<in>set vec. value = 0)"
  unfolding sum_squares_sum_list
  by (subst sum_list_nonneg_eq_0_iff) auto

lemma fold_dot:
  "fold (\<lambda>(key1, value1) top.
             case map_of vec2 key1 of None \<Rightarrow> top | Some value2 \<Rightarrow> top + value1 * value2) vec1 t
   = t + (\<Sum>(key1, value1)\<leftarrow>vec1. dot_term vec2 key1 value1)"
  by (induction vec1 arbitrary: t) (auto simp: dot_term_def split: option.splits)

lemma dot_sum_list: "dot vec1 vec2 = (\<Sum>(key1, value1)\<leftarrow>vec1. dot_term vec2 key1 value1)"
  by (simp add: dot_def fold_dot)

lemma sum_list_distinct_keys:
  "distinct (map fst xs) \<Longrightarrow>
   (\<Sum>(k, v)\<leftarrow>xs. F k v) = (\<Sum>k\<in>fst ` set xs. F k (the (map_of xs k)))"
proof (induction xs)
  case Nil
  then show ?case by simp
next
  case (Cons p xs)
  obtain k v where p: "p = (k, v)" by (cases p)
  from Cons.prems p have k: "k \<notin> fst ` set xs" and d: "distinct (map fst xs)" by auto
  have "(\<Sum>k'\<in>fst ` set xs. F k' (the (map_of (p # xs) k'))) =
        (\<Sum>k'\<in>fst ` set xs. F k' (the (map_of xs k')))"
    using k by (intro sum.cong) (auto simp: p)
  then show ?case
    using k Cons.IH [OF d] by (simp add: p)
qed

lemma dot_sum_keys:
  assumes "distinct (map fst vec1)"
  shows "dot vec1 vec2 =
     (\<Sum>k\<in>fst ` set vec1 \<inter> fst ` set vec2. the (map_of vec1 k) * the (map_of vec2 k))"
proof -
  have "dot vec1 vec2 = (\<Sum>k\<in>fst ` set vec1. dot_term vec2 k (the (map_of vec1 k)))"
    by (simp add: dot_sum_list sum_list_distinct_keys [OF assms])
  also have "\<dots> = (\<Sum>k\<in>fst ` set vec1 \<inter> fst ` set vec2. dot_term vec2 k (the (map_of vec1 k)))"
    by (rule sum.mono_neutral_right)
       (auto simp: dot_term_def dom_map_of_conv_image_fst [symmetric] finite_dom_map_of
             split: option.splits)
  also have "\<dots> = (\<Sum>k\<in>fst ` set vec1 \<inter> fst ` set vec2. the (map_of vec1 k) * the (map_of vec2 k))"
    by (rule sum.cong) (auto simp: dot_term_def dom_map_of_conv_image_fst [symmetric] split: option.splits)
  finally show ?thesis .
qed

lemma dot_commute:
  "distinct (map fst vec1) \<Longrightarrow> distinct (map fst vec2) \<Longrightarrow> dot vec1 vec2 = dot vec2 vec1"
  by (simp add: dot_sum_keys Int_commute mult.commute)

lemma cosine_similarity_commute:
  "distinct (map fst vec1) \<Longrightarrow> distinct (map fst vec2) \<Longrightarrow>
   cosine_similarity vec1 vec2 = cosine_similarity vec2 vec1"
  by (simp add: cosine_similarity_def Let_def dot_commute [of vec1 vec2] mult.commute disj_commute)

lemma cosine_similarity_sentinel:
  "sum_squares vec1 = 0 \<or> sum_squares vec2 = 0 \<Longrightarrow> cosine_similarity vec1 vec2 = Inr (- 1)"
  by (simp add: cosine_similarity_def)

lemma cosine_similarity_value:
  "cosine_similarity vec1 vec2 =
     Inr (if sum_squares vec1 = 0 \<or> sum_squares vec2 = 0 then - 1
          else real_of_int (dot vec1 vec2) /
               (sqrt (real_of_int (sum_squares vec1)) * sqrt (real_of_int (sum_squares vec2))))"
  by (simp add: cosine_similarity_def Let_def py_truediv_def)

lemma cosine_example_value:
  "cosine_similarity [(''a'', 1), (''b'', 2), (''c'', 3)] [(''b'', 4), (''c'', 5), (''d'', 6)] =
     Inr (23 / (sqrt 14 * sqrt 77))"
  by (simp add: cosine_similarity_value sum_squares_def dot_def)

subsection \<open>The range of the cosine in exact arithmetic\<close>

text \<open>
  The Cauchy--Schwarz inequality bounds the dot product by the product of the norms.
  So the exact quotient of two vectors of non-negative counts lies between 0 and 1. The
  program rounds the square roots, their product and the quotient, and these bounds
  on the exact value do not bound the rounded one: the results of this subsection are
  about the exact value, those of the next about the rounded one.
\<close>

lemma cauchy_schwarz_int:
  fixes a b :: "'k \<Rightarrow> int"
  shows "(\<Sum>k\<in>K. a k * b k)\<^sup>2 \<le> (\<Sum>k\<in>K. (a k)\<^sup>2) * (\<Sum>k\<in>K. (b k)\<^sup>2)"
proof -
  let ?A = "\<Sum>k\<in>K. (a k)\<^sup>2" and ?B = "\<Sum>k\<in>K. (b k)\<^sup>2" and ?C = "\<Sum>k\<in>K. a k * b k"
  have "0 \<le> (\<Sum>i\<in>K. \<Sum>j\<in>K. (a i * b j - a j * b i)\<^sup>2)"
    by (intro sum_nonneg) simp
  also have "(\<Sum>i\<in>K. \<Sum>j\<in>K. (a i * b j - a j * b i)\<^sup>2) =
      (\<Sum>i\<in>K. \<Sum>j\<in>K. (a i)\<^sup>2 * (b j)\<^sup>2 + (b i)\<^sup>2 * (a j)\<^sup>2 - 2 * ((a i * b i) * (a j * b j)))"
    by (intro sum.cong refl) (simp add: power2_eq_square algebra_simps)
  also have "\<dots> = (\<Sum>i\<in>K. \<Sum>j\<in>K. (a i)\<^sup>2 * (b j)\<^sup>2) + (\<Sum>i\<in>K. \<Sum>j\<in>K. (b i)\<^sup>2 * (a j)\<^sup>2)
      - 2 * (\<Sum>i\<in>K. \<Sum>j\<in>K. (a i * b i) * (a j * b j))"
    by (simp only: sum_subtractf sum.distrib sum_distrib_left)
  also have "\<dots> = ?A * ?B + ?B * ?A - 2 * (?C * ?C)"
    by (simp only: sum_product)
  finally show ?thesis
    by (simp add: power2_eq_square algebra_simps)
qed

lemma sum_squares_sum_keys:
  "distinct (map fst vec) \<Longrightarrow> sum_squares vec = (\<Sum>k\<in>fst ` set vec. (the (map_of vec k))\<^sup>2)"
  by (simp add: sum_squares_sum_list sum_list_distinct_keys)

lemma dot_squared_le:
  assumes "distinct (map fst vec1)" and "distinct (map fst vec2)"
  shows "(dot vec1 vec2)\<^sup>2 \<le> sum_squares vec1 * sum_squares vec2"
proof -
  let ?K = "fst ` set vec1 \<inter> fst ` set vec2"
  let ?a = "\<lambda>k. the (map_of vec1 k)" and ?b = "\<lambda>k. the (map_of vec2 k)"
  have "(dot vec1 vec2)\<^sup>2 \<le> (\<Sum>k\<in>?K. (?a k)\<^sup>2) * (\<Sum>k\<in>?K. (?b k)\<^sup>2)"
    unfolding dot_sum_keys [OF assms(1)] by (rule cauchy_schwarz_int)
  also have "\<dots> \<le> sum_squares vec1 * sum_squares vec2"
    unfolding sum_squares_sum_keys [OF assms(1)] sum_squares_sum_keys [OF assms(2)]
    by (intro mult_mono sum_mono2 sum_nonneg) auto
  finally show ?thesis .
qed

lemma dot_nonneg:
  assumes "\<forall>(k, v)\<in>set vec1. 0 \<le> v" and "\<forall>(k, v)\<in>set vec2. 0 \<le> v"
  shows "0 \<le> dot vec1 vec2"
proof -
  have "0 \<le> dot_term vec2 k v" if "(k, v) \<in> set vec1" for k v
  proof (cases "map_of vec2 k")
    case None
    then show ?thesis by (simp add: dot_term_def)
  next
    case (Some v2)
    then have "(k, v2) \<in> set vec2" by (rule map_of_SomeD)
    with assms that have "0 \<le> v" "0 \<le> v2" by auto
    then show ?thesis by (simp add: dot_term_def Some)
  qed
  then show ?thesis
    unfolding dot_sum_list by (intro sum_list_nonneg) auto
qed

lemma cosine_similarity_exact_bounds:
  assumes d1: "distinct (map fst vec1)" and d2: "distinct (map fst vec2)"
    and n1: "\<forall>(k, v)\<in>set vec1. 0 \<le> v" and n2: "\<forall>(k, v)\<in>set vec2. 0 \<le> v"
    and z1: "sum_squares vec1 \<noteq> 0" and z2: "sum_squares vec2 \<noteq> 0"
  shows "\<exists>r. cosine_similarity vec1 vec2 = Inr r \<and> 0 \<le> r \<and> r \<le> 1"
proof -
  let ?t = "real_of_int (dot vec1 vec2)"
  let ?d = "sqrt (real_of_int (sum_squares vec1)) * sqrt (real_of_int (sum_squares vec2))"
  have val: "cosine_similarity vec1 vec2 = Inr (?t / ?d)"
    using z1 z2 by (simp add: cosine_similarity_value)
  have pos1: "0 < sum_squares vec1" and pos2: "0 < sum_squares vec2"
    using z1 z2 sum_squares_nonneg [of vec1] sum_squares_nonneg [of vec2] by linarith+
  then have dpos: "0 < ?d" by simp
  have t0: "0 \<le> ?t" using dot_nonneg [OF n1 n2] by simp
  have "?t\<^sup>2 \<le> real_of_int (sum_squares vec1 * sum_squares vec2)"
    using dot_squared_le [OF d1 d2] by (metis of_int_le_iff of_int_power)
  then have "sqrt (?t\<^sup>2) \<le> sqrt (real_of_int (sum_squares vec1 * sum_squares vec2))"
    by (simp only: real_sqrt_le_iff)
  then have "?t \<le> ?d"
    using t0 by (simp add: real_sqrt_mult)
  with dpos t0 have "0 \<le> ?t / ?d" and "?t / ?d \<le> 1"
    by (simp_all add: divide_le_eq_1)
  with val show ?thesis by blast
qed

lemma cosine_example_close_to_070:
  "\<exists>r. cosine_similarity [(''a'', 1), (''b'', 2), (''c'', 3)] [(''b'', 4), (''c'', 5), (''d'', 6)] = Inr r
       \<and> \<bar>r - 0.70\<bar> \<le> 0.01"
proof -
  have s: "sqrt 14 * sqrt 77 = sqrt 1078"
    by (simp flip: real_sqrt_mult)
  have lo: "32.5 \<le> sqrt 1078"
    by (rule real_le_rsqrt) (simp add: power2_eq_square)
  have hi: "sqrt 1078 \<le> 33"
    by (rule real_le_lsqrt) (simp_all add: power2_eq_square)
  have a: "23 / sqrt 1078 \<le> 23 / 32.5"
    using lo by (intro divide_left_mono) simp_all
  have b: "23 / 33 \<le> 23 / sqrt 1078"
    using hi lo by (intro divide_left_mono) simp_all
  have c: "23 / (32.5::real) \<le> 0.71" and d: "(0.69::real) \<le> 23 / 33"
    by simp_all
  have "\<bar>23 / sqrt 1078 - 0.70\<bar> \<le> 0.01"
    using a b c d by linarith
  then show ?thesis
    by (simp add: cosine_example_value s)
qed

subsection \<open>The range of the cosine in binary floating point\<close>

text \<open>
  Rounding to the nearest binary64 number changes a positive number by at most one part
  in \<open>2 ^ 53\<close>.
\<close>

lemma round_half_even_close: "\<bar>of_int (round_half_even y) - y\<bar> \<le> 1 / 2"
  unfolding round_half_even_def Let_def by (auto split: if_splits)


lemma round_half_even_nonneg: "0 \<le> y \<Longrightarrow> 0 \<le> round_half_even y"
  unfolding round_half_even_def Let_def by (auto split: if_splits)


lemma binary64_error:
  assumes "0 < x"
  shows "\<bar>binary64 x - x\<bar> \<le> x / 2 ^ 53"
proof -
  let ?e = "\<lfloor>log 2 x\<rfloor>"
  let ?ulp = "(2::real) powr (of_int ?e - 52)"
  have ulp: "0 < ?ulp" by simp
  have "2 powr of_int ?e \<le> x"
    using assms by (simp flip: le_log_iff)
  then have "?ulp \<le> x / 2 ^ 52"
    by (simp add: powr_diff)
  have "binary64 x - x = ?ulp * (of_int (round_half_even (x / ?ulp)) - x / ?ulp)"
    using assms ulp by (simp add: binary64_def Let_def algebra_simps)
  then have "\<bar>binary64 x - x\<bar> = ?ulp * \<bar>of_int (round_half_even (x / ?ulp)) - x / ?ulp\<bar>"
    using ulp by (simp add: abs_mult)
  also have "\<dots> \<le> ?ulp * (1 / 2)"
    using ulp by (intro mult_left_mono round_half_even_close) simp
  also have "\<dots> \<le> x / 2 ^ 52 * (1 / 2)"
    using \<open>?ulp \<le> x / 2 ^ 52\<close> by (intro mult_right_mono) simp_all
  finally show ?thesis by simp
qed

lemma binary64_between:
  assumes "0 \<le> x"
  shows "x * (1 - 1 / 2 ^ 53) \<le> binary64 x \<and> binary64 x \<le> x * (1 + 1 / 2 ^ 53)"
proof (cases "x = 0")
  case True
  then show ?thesis by (simp add: binary64_def)
next
  case False
  with assms have "0 < x" by simp
  from binary64_error [OF this]
  have "x - x / 2 ^ 53 \<le> binary64 x" and "binary64 x \<le> x + x / 2 ^ 53"
    by linarith+
  moreover have "x * (1 - 1 / 2 ^ 53) = x - x / 2 ^ 53" and "x * (1 + 1 / 2 ^ 53) = x + x / 2 ^ 53"
    by (simp_all only: right_diff_distrib distrib_left mult_1_right times_divide_eq_right)
  ultimately show ?thesis by simp
qed







text \<open>
  How the rounding errors of the last line add up: for any rounding that keeps every
  non-negative number within the factors \<open>l\<close> and \<open>h\<close>, the rounded quotient stays
  within the factors \<open>l ^ 2 / h ^ 5\<close> and \<open>h ^ 2 / l ^ 5\<close> of the exact one.
\<close>

lemma rounded_root_bounds:
  fixes rnd :: "real \<Rightarrow> real"
  assumes rnd: "\<And>x. 0 \<le> x \<Longrightarrow> x * l \<le> rnd x \<and> rnd x \<le> x * h"
    and l: "0 < l" "l \<le> 1" and h: "1 \<le> h" and B: "0 < B"
  shows "sqrt B * (l * l) \<le> rnd (sqrt (rnd B))" and "rnd (sqrt (rnd B)) \<le> sqrt B * (h * h)"
proof -
  from rnd [of B] B have a: "B * l \<le> rnd B" "rnd B \<le> B * h" by simp_all
  have "l * l \<le> l * 1" using l by (intro mult_left_mono) simp_all
  then have "l * l \<le> l" by simp
  then have "sqrt (l * l) \<le> sqrt l" by (rule real_sqrt_le_mono)
  moreover have "sqrt (l * l) = l" using l by simp
  ultimately have sl: "l \<le> sqrt l" by simp
  have "h * 1 \<le> h * h" using h by (intro mult_left_mono) simp_all
  then have "h \<le> h * h" by simp
  then have "sqrt h \<le> sqrt (h * h)" by (rule real_sqrt_le_mono)
  moreover have "sqrt (h * h) = h" using h by simp
  ultimately have sh: "sqrt h \<le> h" by simp
  have "sqrt B * l \<le> sqrt B * sqrt l"
    using sl B by (intro mult_left_mono) simp_all
  also have "\<dots> = sqrt (B * l)" by (simp add: real_sqrt_mult)
  also have "\<dots> \<le> sqrt (rnd B)" using a(1) by simp
  finally have lo: "sqrt B * l \<le> sqrt (rnd B)" .
  have "sqrt (rnd B) \<le> sqrt (B * h)" using a(2) by simp
  also have "\<dots> = sqrt B * sqrt h" by (simp add: real_sqrt_mult)
  also have "\<dots> \<le> sqrt B * h"
    using sh B by (intro mult_left_mono) simp_all
  finally have hi: "sqrt (rnd B) \<le> sqrt B * h" .
  have nn: "0 \<le> sqrt (rnd B)"
    using lo B l by (meson less_eq_real_def mult_nonneg_nonneg order_trans real_sqrt_ge_zero)
  from rnd [OF nn] have r: "sqrt (rnd B) * l \<le> rnd (sqrt (rnd B))"
    "rnd (sqrt (rnd B)) \<le> sqrt (rnd B) * h" by simp_all
  have "sqrt B * (l * l) = sqrt B * l * l" by simp
  also have "\<dots> \<le> sqrt (rnd B) * l"
    using lo l by (intro mult_right_mono) simp_all
  also note r(1)
  finally show "sqrt B * (l * l) \<le> rnd (sqrt (rnd B))" .
  note r(2)
  also have "sqrt (rnd B) * h \<le> sqrt B * h * h"
    using hi h by (intro mult_right_mono) simp_all
  also have "\<dots> = sqrt B * (h * h)" by simp
  finally show "rnd (sqrt (rnd B)) \<le> sqrt B * (h * h)" .
qed

lemma rounded_quotient_bounds:
  fixes rnd :: "real \<Rightarrow> real"
  assumes rnd: "\<And>x. 0 \<le> x \<Longrightarrow> x * l \<le> rnd x \<and> rnd x \<le> x * h"
    and l: "0 < l" "l \<le> 1" and h: "1 \<le> h"
    and B1: "0 < B1" and B2: "0 < B2" and T: "0 \<le> T"
  shows "0 < rnd (rnd (sqrt (rnd B1)) * rnd (sqrt (rnd B2)))"
    and "T / (sqrt B1 * sqrt B2) * (l ^ 2 / h ^ 5)
           \<le> rnd (rnd T / rnd (rnd (sqrt (rnd B1)) * rnd (sqrt (rnd B2))))"
    and "rnd (rnd T / rnd (rnd (sqrt (rnd B1)) * rnd (sqrt (rnd B2))))
           \<le> T / (sqrt B1 * sqrt B2) * (h ^ 2 / l ^ 5)"
proof -
  let ?r1 = "rnd (sqrt (rnd B1))" and ?r2 = "rnd (sqrt (rnd B2))"
  let ?D = "sqrt B1 * sqrt B2"
  let ?den = "rnd (?r1 * ?r2)"
  let ?num = "rnd T"
  have h0: "0 < h" using h by simp
  have D: "0 < ?D" using B1 B2 by simp
  note r1 = rounded_root_bounds [of l rnd h B1, OF rnd l h B1]
  note r2 = rounded_root_bounds [of l rnd h B2, OF rnd l h B2]
  have r1pos: "0 \<le> ?r1"
    using r1(1) B1 l by (meson less_eq_real_def mult_nonneg_nonneg order_trans real_sqrt_ge_zero)
  have r2pos: "0 \<le> ?r2"
    using r2(1) B2 l by (meson less_eq_real_def mult_nonneg_nonneg order_trans real_sqrt_ge_zero)
  have "sqrt B1 * (l * l) * (sqrt B2 * (l * l)) \<le> ?r1 * ?r2"
    using r1(1) r2(1) r1pos B2 l by (intro mult_mono) simp_all
  then have plo: "?D * l ^ 4 \<le> ?r1 * ?r2"
    by (simp add: power4_eq_xxxx mult_ac)
  have "?r1 * ?r2 \<le> sqrt B1 * (h * h) * (sqrt B2 * (h * h))"
    using r1(2) r2(2) r2pos B1 h0 by (intro mult_mono) simp_all
  then have phi: "?r1 * ?r2 \<le> ?D * h ^ 4"
    by (simp add: power4_eq_xxxx mult_ac)
  have ppos: "0 \<le> ?r1 * ?r2" using r1pos r2pos by simp
  from rnd [OF ppos] have d: "?r1 * ?r2 * l \<le> ?den" "?den \<le> ?r1 * ?r2 * h" by simp_all
  have "?D * l ^ 5 = ?D * l ^ 4 * l" by (simp add: power_Suc2 numeral_eq_Suc)
  also have "\<dots> \<le> ?r1 * ?r2 * l" using plo l by (intro mult_right_mono) simp_all
  also note d(1)
  finally have dlo: "?D * l ^ 5 \<le> ?den" .
  note d(2)
  also have "?r1 * ?r2 * h \<le> ?D * h ^ 4 * h" using phi h0 by (intro mult_right_mono) simp_all
  also have "\<dots> = ?D * h ^ 5" by (simp add: power_Suc2 numeral_eq_Suc)
  finally have dhi: "?den \<le> ?D * h ^ 5" .
  have "0 < ?D * l ^ 5" using D l by simp
  with dlo show dpos: "0 < ?den" by linarith
  from rnd [OF T] have n: "T * l \<le> ?num" "?num \<le> T * h" by simp_all
  have npos: "0 \<le> ?num" using n(1) T l by (meson less_eq_real_def mult_nonneg_nonneg order_trans)
  have qpos: "0 \<le> ?num / ?den" using npos dpos by simp
  from rnd [OF qpos] have q: "?num / ?den * l \<le> rnd (?num / ?den)" "rnd (?num / ?den) \<le> ?num / ?den * h"
    by simp_all
  have "T * l / (?D * h ^ 5) \<le> ?num / ?den"
    using n(1) dhi dpos npos by (intro frac_le) simp_all
  then have "T * l / (?D * h ^ 5) * l \<le> ?num / ?den * l"
    using l by (intro mult_right_mono) simp_all
  with q(1) have lower: "T * l / (?D * h ^ 5) * l \<le> rnd (?num / ?den)" by linarith
  have e1: "T / ?D * (l ^ 2 / h ^ 5) = T * l / (?D * h ^ 5) * l"
    by (simp add: power2_eq_square)
  show "T / ?D * (l ^ 2 / h ^ 5) \<le> rnd (?num / ?den)"
    unfolding e1 by (fact lower)
  have "?num / ?den \<le> T * h / (?D * l ^ 5)"
    using n(2) dlo T h0 \<open>0 < ?D * l ^ 5\<close> by (intro frac_le) simp_all
  then have "?num / ?den * h \<le> T * h / (?D * l ^ 5) * h"
    using h0 by (intro mult_right_mono) simp_all
  with q(2) have upper: "rnd (?num / ?den) \<le> T * h / (?D * l ^ 5) * h" by linarith
  have e2: "T / ?D * (h ^ 2 / l ^ 5) = T * h / (?D * l ^ 5) * h"
    by (simp add: power2_eq_square)
  show "rnd (?num / ?den) \<le> T / ?D * (h ^ 2 / l ^ 5)"
    unfolding e2 by (fact upper)
qed









text \<open>
  The sentinel, the absence of a division by zero and the symmetry in the two arguments
  do not depend on the rounding: they hold for the rounded computation as for the exact
  one.
\<close>

lemma cosine_similarity_binary64_sentinel:
  "sum_squares vec1 = 0 \<or> sum_squares vec2 = 0 \<Longrightarrow> cosine_similarity_binary64 vec1 vec2 = Inr (- 1)"
  by (simp add: cosine_similarity_binary64_def)

lemma cosine_similarity_binary64_no_zero_division:
  "cosine_similarity_binary64 vec1 vec2 \<noteq> Inl ZeroDivisionError"
proof (cases "sum_squares vec1 = 0 \<or> sum_squares vec2 = 0")
  case True
  then show ?thesis by (simp add: cosine_similarity_binary64_sentinel)
next
  case False
  let ?B1 = "real_of_int (sum_squares vec1)" and ?B2 = "real_of_int (sum_squares vec2)"
  from False have B1: "0 < ?B1" and B2: "0 < ?B2"
    using sum_squares_nonneg [of vec1] sum_squares_nonneg [of vec2] by simp_all
  have l: "(0::real) < 1 - 1 / 2 ^ 53" "(1 - 1 / 2 ^ 53 :: real) \<le> 1" and h: "(1::real) \<le> 1 + 1 / 2 ^ 53"
    by simp_all
  have T: "(0::real) \<le> 0" by simp
  have "0 < binary64 (binary64 (sqrt (binary64 ?B1)) * binary64 (sqrt (binary64 ?B2)))"
    by (rule rounded_quotient_bounds(1) [of "1 - 1 / 2 ^ 53" binary64 "1 + 1 / 2 ^ 53" ?B1 ?B2 0,
          OF binary64_between l h B1 B2 T])
  then show ?thesis
    using False by (simp add: cosine_similarity_binary64_def Let_def)
qed

lemma cosine_similarity_binary64_commute:
  "distinct (map fst vec1) \<Longrightarrow> distinct (map fst vec2) \<Longrightarrow>
   cosine_similarity_binary64 vec1 vec2 = cosine_similarity_binary64 vec2 vec1"
  by (simp add: cosine_similarity_binary64_def Let_def dot_commute [of vec1 vec2] mult.commute
      disj_commute)

subsection \<open>The sentinel and the order of the arguments\<close>

text \<open>
  Claim C4: when the sum of squares of either vector is 0 (in particular when either
  vector is empty), \<^verbatim>\<open>cosine_similarity\<close> returns the sentinel \<open>-1\<close>, so it ends in no error
  there; and on no input does it divide by zero.
\<close>

theorem C4_zero_vector_sentinel:
  "(sum_squares vec1 = 0 \<or> sum_squares vec2 = 0 \<longrightarrow> cosine_similarity vec1 vec2 = Inr (- 1)) \<and>
   cosine_similarity vec1 [] = Inr (- 1) \<and>
   cosine_similarity [] vec2 = Inr (- 1) \<and>
   cosine_similarity vec1 vec2 \<noteq> Inl ZeroDivisionError"
proof -
  have "cosine_similarity vec1 [] = Inr (- 1)" and "cosine_similarity [] vec2 = Inr (- 1)"
    by (simp_all add: cosine_similarity_sentinel sum_squares_Nil)
  moreover have "cosine_similarity vec1 vec2 \<noteq> Inl ZeroDivisionError"
    by (simp add: cosine_similarity_value)
  ultimately show ?thesis
    by (simp add: cosine_similarity_sentinel)
qed

theorem C4_zero_vector_sentinel_witness:
  "sum_squares [(''a'', 0)] = 0 \<and> cosine_similarity [(''a'', 0)] [(''b'', 3)] = Inr (- 1)"
proof -
  have h: "sum_squares [(''a'', 0)] = 0" by (simp add: sum_squares_def)
  then have "sum_squares [(''a'', 0)] = 0 \<or> sum_squares [(''b'', 3)] = 0" by (rule disjI1)
  with C4_zero_vector_sentinel [of "[(''a'', 0)]" "[(''b'', 3)]"] h show ?thesis by blast
qed

text \<open>
  Claim C10: \<^verbatim>\<open>cosine_similarity\<close> gives the same result for both orders of its arguments,
  the sentinel included. The vectors are dictionaries, so their keys are distinct.
\<close>

theorem C10_cosine_commutative:
  "distinct (map fst a) \<Longrightarrow> distinct (map fst b) \<Longrightarrow>
   cosine_similarity a b = cosine_similarity b a \<and>
   (sum_squares a = 0 \<or> sum_squares b = 0 \<longrightarrow>
      cosine_similarity a b = Inr (- 1) \<and> cosine_similarity b a = Inr (- 1))"
  by (simp add: cosine_similarity_commute cosine_similarity_sentinel)

theorem C10_cosine_commutative_witness:
  "distinct (map fst [(''a'', 1::int), (''b'', 2), (''c'', 3)]) \<and>
   distinct (map fst [(''b'', 4::int), (''c'', 5), (''d'', 6)]) \<and>
   cosine_similarity [(''a'', 1), (''b'', 2), (''c'', 3)] [(''b'', 4), (''c'', 5), (''d'', 6)] =
   cosine_similarity [(''b'', 4), (''c'', 5), (''d'', 6)] [(''a'', 1), (''b'', 2), (''c'', 3)]"
proof -
  have h1: "distinct (map fst [(''a'', 1::int), (''b'', 2), (''c'', 3)])" by simp
  have h2: "distinct (map fst [(''b'', 4::int), (''c'', 5), (''d'', 6)])" by simp
  from h1 h2 C10_cosine_commutative [OF h1 h2] show ?thesis by blast
qed

section \<open>Properties of the synonym selector\<close>

lemma pair_similarity_unknown:
  "map_of sd word = None \<or> map_of sd choice = None \<Longrightarrow>
   pair_similarity word choice sd fn = Inr (- 1)"
  by (auto simp: pair_similarity_def split: option.splits)

lemma scan_choices_unknown_word:
  "map_of sd word = None \<Longrightarrow> scan_choices word sd fn cs (- 1, b) = Inr (- 1, b)"
  by (induction cs) (simp_all add: pair_similarity_unknown)

text \<open>
  Claim C6: when the word or a choice is not a key of the table, the similarity of the
  pair is \<open>-1\<close> whatever the similarity function is (it is not called: the result is
  the same for a function that always raises); and when the word is unknown, the first
  choice is returned, for every table, every similarity function and every non-empty
  list of choices, without an error.
\<close>

theorem C6_unknown_words:
  "(map_of sd word = None \<or> map_of sd choice = None \<longrightarrow>
      pair_similarity word choice sd fn = Inr (- 1)) \<and>
   (map_of sd word = None \<longrightarrow> most_similar_word word (c # cs) sd fn = Inr c)"
  by (simp add: pair_similarity_unknown most_similar_word_def scan_choices_unknown_word
      del: scan_choices.simps)

theorem C6_unknown_words_witness:
  "map_of (build_semantic_descriptors [[''a'', ''b'']]) ''nonexistentword123'' = None \<and>
   pair_similarity ''nonexistentword123'' ''a'' (build_semantic_descriptors [[''a'', ''b'']])
     (\<lambda>v1 v2. Inl OtherError) = Inr (- 1) \<and>
   most_similar_word ''nonexistentword123'' [''a'', ''b''] (build_semantic_descriptors [[''a'', ''b'']])
     (\<lambda>v1 v2. Inl OtherError) = Inr ''a''"
proof -
  have h: "map_of (build_semantic_descriptors [[''a'', ''b'']]) ''nonexistentword123'' = None"
    by code_simp
  from h C6_unknown_words [of "build_semantic_descriptors [[''a'', ''b'']]" "''nonexistentword123''"
      "''a''" "\<lambda>v1 v2. Inl OtherError" "''a''" "[''b'']"]
  show ?thesis by blast
qed

text \<open>
  Claim C5 at an input where the similarities are below \<open>-1\<close>. The similarity function
  is \<^verbatim>\<open>lambda v1, v2: -len(v2)\<close>; the word \<^verbatim>\<open>w\<close> has similarity \<open>-3\<close> with the first choice
  and \<open>-2\<close> with the second, and \<^verbatim>\<open>most_similar_word\<close> returns the first: the loop starts
  from \<^verbatim>\<open>max_similarity = -1\<close>, which no choice exceeds.
\<close>

theorem C5_below_minus_one:
  "pair_similarity ''w'' ''a''
      [(''w'', [(''x'', 1)]), (''a'', [(''x'', 1), (''y'', 1), (''z'', 1)]), (''b'', [(''x'', 1), (''y'', 1)])]
      (\<lambda>v1 v2. Inr (- real (length v2))) = Inr (- 3) \<and>
   pair_similarity ''w'' ''b''
      [(''w'', [(''x'', 1)]), (''a'', [(''x'', 1), (''y'', 1), (''z'', 1)]), (''b'', [(''x'', 1), (''y'', 1)])]
      (\<lambda>v1 v2. Inr (- real (length v2))) = Inr (- 2) \<and>
   most_similar_word ''w'' [''a'', ''b'']
      [(''w'', [(''x'', 1)]), (''a'', [(''x'', 1), (''y'', 1), (''z'', 1)]), (''b'', [(''x'', 1), (''y'', 1)])]
      (\<lambda>v1 v2. Inr (- real (length v2))) = Inr ''a''"
  by (simp add: most_similar_word_def pair_similarity_def)

subsection \<open>Similarities that are at least \<open>-1\<close>\<close>

text \<open>
  When no similarity is below \<open>-1\<close> (as with the cosine of count vectors, where an
  unknown word or a zero vector gives \<open>-1\<close> and everything else is at least 0), the
  selector does return a most similar choice, and the first of them in the order of the
  list: every choice before it is strictly less similar.
\<close>

lemma pair_similarity_value:
  "pair_similarity word choice sd (\<lambda>a b. Inr (f a b)) = Inr (similarity_value word sd f choice)"
  by (simp add: pair_similarity_def similarity_value_def split: option.splits)

lemma scan_choices_foldl:
  "scan_choices word sd (\<lambda>a b. Inr (f a b)) cs st =
     Inr (foldl (keep_best (similarity_value word sd f)) st cs)"
proof (induction cs arbitrary: st)
  case Nil
  then show ?case by simp
next
  case (Cons c cs)
  obtain m b where st: "st = (m, b)" by (cases st)
  show ?case
    by (simp add: st pair_similarity_value Cons.IH keep_best_def)
qed

lemma best_so_far_step:
  assumes "best_so_far s first seen st"
  shows "best_so_far s first (seen @ [c]) (keep_best s st c)"
proof (cases "s c > fst st")
  case True
  have all: "\<forall>x\<in>set (seen @ [c]). s x \<le> s c"
    using assms True by (auto simp: best_so_far_def intro: less_imp_le order.trans)
  have "\<forall>j<length seen. s ((seen @ [c]) ! j) < s c"
    using assms True by (auto simp: best_so_far_def nth_append intro: le_less_trans)
  then have "\<exists>i<length (seen @ [c]). (seen @ [c]) ! i = c \<and> s c = s c \<and>
      (\<forall>j<i. s ((seen @ [c]) ! j) < s c)"
    by (intro exI [of _ "length seen"]) simp
  with all True show ?thesis
    by (simp add: best_so_far_def keep_best_def)
next
  case False
  then have kb: "keep_best s st c = st" by (simp add: keep_best_def)
  have all: "\<forall>x\<in>set (seen @ [c]). s x \<le> fst st"
    using assms False by (auto simp: best_so_far_def)
  from assms have "fst st = - 1 \<and> snd st = first \<or>
       (\<exists>i<length seen. seen ! i = snd st \<and> s (snd st) = fst st \<and> (\<forall>j<i. s (seen ! j) < fst st))"
    by (simp add: best_so_far_def)
  then have "fst st = - 1 \<and> snd st = first \<or>
       (\<exists>i<length (seen @ [c]). (seen @ [c]) ! i = snd st \<and> s (snd st) = fst st \<and>
          (\<forall>j<i. s ((seen @ [c]) ! j) < fst st))"
  proof
    assume "fst st = - 1 \<and> snd st = first"
    then show ?thesis by (rule disjI1)
  next
    assume "\<exists>i<length seen. seen ! i = snd st \<and> s (snd st) = fst st \<and> (\<forall>j<i. s (seen ! j) < fst st)"
    then obtain i where i: "i < length seen" "seen ! i = snd st" "s (snd st) = fst st"
      "\<forall>j<i. s (seen ! j) < fst st" by blast
    then have "i < length (seen @ [c]) \<and> (seen @ [c]) ! i = snd st \<and> s (snd st) = fst st \<and>
          (\<forall>j<i. s ((seen @ [c]) ! j) < fst st)"
      by (simp add: nth_append)
    then show ?thesis by blast
  qed
  with all show ?thesis
    unfolding kb by (simp only: best_so_far_def simp_thms)
qed

lemma best_so_far_foldl:
  "best_so_far s first seen st \<Longrightarrow> best_so_far s first (seen @ cs) (foldl (keep_best s) st cs)"
proof (induction cs arbitrary: seen st)
  case Nil
  then show ?case by simp
next
  case (Cons c cs)
  from Cons.IH [OF best_so_far_step [OF Cons.prems, of c]] show ?case by simp
qed

lemma most_similar_word_first_best:
  assumes floor: "\<forall>c\<in>set (c0 # cs). - 1 \<le> similarity_value word sd f c"
  shows "\<exists>i<length (c0 # cs).
           most_similar_word word (c0 # cs) sd (\<lambda>a b. Inr (f a b)) = Inr ((c0 # cs) ! i) \<and>
           (\<forall>c\<in>set (c0 # cs). similarity_value word sd f c \<le> similarity_value word sd f ((c0 # cs) ! i)) \<and>
           (\<forall>j<i. similarity_value word sd f ((c0 # cs) ! j) < similarity_value word sd f ((c0 # cs) ! i))"
proof -
  let ?s = "similarity_value word sd f"
  let ?st = "foldl (keep_best ?s) (- 1, c0) (c0 # cs)"
  have res: "most_similar_word word (c0 # cs) sd (\<lambda>a b. Inr (f a b)) = Inr (snd ?st)"
    by (simp add: most_similar_word_def scan_choices_foldl split: prod.splits del: foldl_Cons)
  have "best_so_far ?s c0 [] (- 1, c0)"
    by (simp add: best_so_far_def)
  from best_so_far_foldl [OF this, of "c0 # cs"]
  have inv: "best_so_far ?s c0 (c0 # cs) ?st" by simp
  then have le: "\<forall>c\<in>set (c0 # cs). ?s c \<le> fst ?st"
    unfolding best_so_far_def by (rule conjunct1)
  from inv have "fst ?st = - 1 \<and> snd ?st = c0 \<or>
       (\<exists>i<length (c0 # cs). (c0 # cs) ! i = snd ?st \<and> ?s (snd ?st) = fst ?st \<and>
          (\<forall>j<i. ?s ((c0 # cs) ! j) < fst ?st))"
    unfolding best_so_far_def by (rule conjunct2)
  then show ?thesis
  proof
    assume a: "fst ?st = - 1 \<and> snd ?st = c0"
    have "\<forall>c\<in>set (c0 # cs). ?s c = - 1"
      using le floor a by (metis order.antisym)
    then have "\<forall>c\<in>set (c0 # cs). ?s c \<le> ?s ((c0 # cs) ! 0)"
      by simp
    moreover have "most_similar_word word (c0 # cs) sd (\<lambda>a b. Inr (f a b)) = Inr ((c0 # cs) ! 0)"
      using res a by simp
    ultimately show ?thesis
      by (intro exI [of _ 0]) simp
  next
    assume "\<exists>i<length (c0 # cs). (c0 # cs) ! i = snd ?st \<and> ?s (snd ?st) = fst ?st \<and>
          (\<forall>j<i. ?s ((c0 # cs) ! j) < fst ?st)"
    then obtain i where i: "i < length (c0 # cs)" "(c0 # cs) ! i = snd ?st" "?s (snd ?st) = fst ?st"
      "\<forall>j<i. ?s ((c0 # cs) ! j) < fst ?st" by blast
    have "most_similar_word word (c0 # cs) sd (\<lambda>a b. Inr (f a b)) = Inr ((c0 # cs) ! i)"
      using res i(2) by simp
    moreover have "\<forall>c\<in>set (c0 # cs). ?s c \<le> ?s ((c0 # cs) ! i)"
      using le i(2,3) by simp
    moreover have "\<forall>j<i. ?s ((c0 # cs) ! j) < ?s ((c0 # cs) ! i)"
      using i(2,3,4) by simp
    ultimately show ?thesis using i(1) by blast
  qed
qed

section \<open>Properties of the evaluator\<close>








lemma fields_example: "fields ''cat dog   dog tree'' = [''cat'', ''dog'', ''dog'', ''tree'']"
  by code_simp

text \<open>
  With an empty table every word is unknown and the first choice is the guess: of the
  four lines below two are questions, and one of them is answered correctly.
\<close>

lemma run_similarity_test_example:
  "run_similarity_test [''cat dog dog tree'', ''cat tree dog tree'', ''too short'', '''']
     [] (\<lambda>v1 v2. Inl OtherError) = Inr 50"
  by code_simp



end
